theory Spec2Isabelle
  imports Complex_Main "HOL-Library.AList" "HOL-Library.List_Lexorder" "HOL-Library.Char_ord"
begin

section \<open>Python values used by the registry and the training-set builder\<close>

text \<open>
  A Python \<open>str\<close> is modelled as the list of its code points, restricted to the range
  U+0000 .. U+00FF that \<^typ>\<open>char\<close> covers. A Python \<open>dict\<close> is an association list in
  insertion order, read with \<^const>\<open>map_of\<close>; an assignment \<open>d[k] = v\<close> is
  \<^const>\<open>AList.update\<close> (the value is replaced in place when the key exists, the pair is
  appended otherwise) and \<open>del d[k]\<close> is \<^const>\<open>AList.delete\<close>.
\<close>

datatype py_error = AttributeError | KeyError | IndexError

text \<open>What \<open>json.load\<close> returns. Numbers are carried around by the code, never computed with.\<close>

datatype json =
    JNull
  | JBool bool
  | JNum real
  | JStr string
  | JArr "json list"
  | JObj "(string \<times> json) list"

subsection \<open>\<open>str.strip()\<close>, \<open>str.lower()\<close>, \<open>str.split()\<close>\<close>

definition isspace :: "char \<Rightarrow> bool" where
  "isspace c =
     (let n = (of_char c :: nat)
      in (9 \<le> n \<and> n \<le> 13) \<or> (28 \<le> n \<and> n \<le> 32) \<or> n = 133 \<or> n = 160)"

definition strip :: "string \<Rightarrow> string" where
  "strip s = rev (dropWhile isspace (rev (dropWhile isspace s)))"

definition lower_char :: "char \<Rightarrow> char" where
  "lower_char c =
     (let n = (of_char c :: nat)
      in if (65 \<le> n \<and> n \<le> 90) \<or> (192 \<le> n \<and> n \<le> 222 \<and> n \<noteq> 215)
         then char_of (n + 32) else c)"

definition lower :: "string \<Rightarrow> string" where
  "lower s = map lower_char s"

text \<open>\<open>s.split()\<close>: the maximal runs of non-whitespace characters, in order.\<close>

fun split_ws :: "string \<Rightarrow> string \<Rightarrow> string list" where
  "split_ws [] tok = (if tok = [] then [] else [tok])"
| "split_ws (c # cs) tok =
     (if isspace c then (if tok = [] then split_ws cs [] else tok # split_ws cs [])
      else split_ws cs (tok @ [c]))"

definition split :: "string \<Rightarrow> string list" where
  "split s = split_ws s []"

definition endswith :: "string \<Rightarrow> string \<Rightarrow> bool" where
  "endswith s suffix = (length suffix \<le> length s \<and> drop (length s - length suffix) s = suffix)"

section \<open>Training-set builder (\<open>admin_app.py\<close>, section 2)\<close>

text \<open>
  A row of \<open>csv.DictReader\<close>: each header name is bound to the cell's text, or to
  \<open>None\<close> when the line is shorter than the header. \<open>Some None\<close> under \<^const>\<open>map_of\<close>
  is a key present with value \<open>None\<close>.
\<close>

type_synonym csv_row = "(string \<times> string option) list"

record message =
  role :: string
  content :: string

subsection \<open>\<open>json.dumps\<close> of one training record\<close>

definition hex_digit :: "nat \<Rightarrow> char" where
  "hex_digit d = ''0123456789abcdef'' ! (d mod 16)"

text \<open>
  \<open>json.encoder.py_encode_basestring_ascii\<close>: the quote and the backslash are
  escaped, the five short escapes are used, every other character outside \<open>' '..'~'\<close>
  becomes \<open>\uXXXX\<close>.
\<close>

definition escape_char :: "char \<Rightarrow> string" where
  "escape_char c =
     (let n = (of_char c :: nat)
      in if n = 34 then [CHR 0x5C, CHR 0x22]
         else if n = 92 then [CHR 0x5C, CHR 0x5C]
         else if n = 8 then [CHR 0x5C, CHR ''b'']
         else if n = 12 then [CHR 0x5C, CHR ''f'']
         else if n = 10 then [CHR 0x5C, CHR ''n'']
         else if n = 13 then [CHR 0x5C, CHR ''r'']
         else if n = 9 then [CHR 0x5C, CHR ''t'']
         else if 32 \<le> n \<and> n \<le> 126 then [c]
         else [CHR 0x5C, CHR ''u'', hex_digit (n div 4096), hex_digit (n div 256),
               hex_digit (n div 16), hex_digit n])"

definition json_string :: "string \<Rightarrow> string" where
  "json_string s = [CHR 0x22] @ concat (map escape_char s) @ [CHR 0x22]"

definition dumps_message :: "message \<Rightarrow> string" where
  \<open>dumps_message m =
     ''{"role": '' @ json_string (role m) @ '', "content": '' @ json_string (content m) @ ''}''\<close>

fun join :: "string \<Rightarrow> string list \<Rightarrow> string" where
  "join sep [] = []"
| "join sep [x] = x"
| "join sep (x # y # ys) = x @ sep @ join sep (y # ys)"

definition json_dumps :: "message list \<Rightarrow> string" where
  \<open>json_dumps msgs = ''{"messages": ['' @ join '', '' (map dumps_message msgs) @ '']}''\<close>

subsection \<open>\<open>build_jsonl_for_senders\<close>\<close>

text \<open>\<open>(row.get(k) or "")\<close>\<close>

definition get_or_empty :: "csv_row \<Rightarrow> string \<Rightarrow> string" where
  "get_or_empty row k = (case map_of row k of Some (Some s) \<Rightarrow> s | _ \<Rightarrow> [])"

text \<open>\<open>row.get(k, "").strip()\<close>: the default is used only when the key is absent.\<close>

definition get_default_strip :: "csv_row \<Rightarrow> string \<Rightarrow> py_error + string" where
  "get_default_strip row k =
     (case map_of row k of
        None \<Rightarrow> Inr (strip [])
      | Some None \<Rightarrow> Inl AttributeError
      | Some (Some s) \<Rightarrow> Inr (strip s))"

definition parsed_sender :: "csv_row \<Rightarrow> string" where
  "parsed_sender row = lower (strip (get_or_empty row ''Parsed From''))"

definition user_content :: "string \<Rightarrow> string" where
  "user_content subject =
     ''Subject: '' @ subject @ [CHR 0x0A] @ ''Please respond with the email body style.''"

definition data_line :: "string \<Rightarrow> string \<Rightarrow> message list" where
  "data_line subject body =
     [\<lparr>role = ''user'', content = user_content subject\<rparr>,
      \<lparr>role = ''assistant'', content = body\<rparr>]"

text \<open>
  The loop over \<open>all_rows\<close>. \<open>written\<close> is what has been written to \<open>f_out\<close> so far;
  when a row raises, the \<open>with\<close> block closes the file with that content.
\<close>

fun build_loop ::
  "string list \<Rightarrow> csv_row list \<Rightarrow> string \<Rightarrow> nat \<Rightarrow> string \<times> (py_error + nat)" where
  "build_loop lower_senders [] written count = (written, Inr count)"
| "build_loop lower_senders (row # rows) written count =
     (if parsed_sender row \<in> set lower_senders then
        (case get_default_strip row ''Parsed Subject'' of
           Inl e \<Rightarrow> (written, Inl e)
         | Inr subject \<Rightarrow>
             (case get_default_strip row ''Parsed Body'' of
                Inl e \<Rightarrow> (written, Inl e)
              | Inr body \<Rightarrow>
                  build_loop lower_senders rows
                    (written @ json_dumps (data_line subject body) @ [CHR 0x0A]) (Suc count)))
      else build_loop lower_senders rows written count)"

type_synonym filesystem = "string \<Rightarrow> string option"

text \<open>\<open>open(output_jsonl, "w")\<close> truncates: the loop starts from the empty content.\<close>

definition build_jsonl_for_senders ::
  "csv_row list \<Rightarrow> string list \<Rightarrow> string \<Rightarrow> filesystem \<Rightarrow> filesystem \<times> (py_error + nat)" where
  "build_jsonl_for_senders all_rows selected_senders output_jsonl fs =
     (let lower_senders = map lower selected_senders;
          (written, res) = build_loop lower_senders all_rows [] 0
      in (fs(output_jsonl \<mapsto> written), res))"

subsection \<open>Sender selection (\<open>create_admin_gui\<close>, tab 3)\<close>

text \<open>The set of trimmed, non-empty sender values of the rows, sorted.\<close>

definition gather_senders :: "csv_row list \<Rightarrow> string list" where
  "gather_senders all_rows =
     sort (remdups (filter (\<lambda>frm. frm \<noteq> [])
                           (map (\<lambda>row. strip (get_or_empty row ''Parsed From'')) all_rows)))"

text \<open>\<open>full_name.split()[0] if full_name else ""\<close>\<close>

definition get_first_name :: "string \<Rightarrow> py_error + string" where
  "get_first_name full_name =
     (if full_name \<noteq> [] then
        (case split full_name of [] \<Rightarrow> Inl IndexError | first # _ \<Rightarrow> Inr first)
      else Inr [])"

text \<open>
  The loop that fills \<open>grouped_senders\<close>: a first name not yet a key gets the empty list,
  then the sender is appended to the list under its first name.
\<close>

fun group_loop ::
  "string list \<Rightarrow> (string \<times> string list) list \<Rightarrow> py_error + (string \<times> string list) list" where
  "group_loop [] grouped_senders = Inr grouped_senders"
| "group_loop (sender # rest) grouped_senders =
     (case get_first_name sender of
        Inl e \<Rightarrow> Inl e
      | Inr first_name \<Rightarrow>
          (case map_of grouped_senders first_name of
             None \<Rightarrow> group_loop rest (AList.update first_name ([] @ [sender]) grouped_senders)
           | Some full_list \<Rightarrow>
               group_loop rest (AList.update first_name (full_list @ [sender]) grouped_senders)))"

fun display_loop ::
  "(string \<times> string list) list \<Rightarrow> string list \<Rightarrow> py_error + string list" where
  "display_loop [] display_senders = Inr display_senders"
| "display_loop ((fn, full_list) # rest) display_senders =
     (if length full_list > 1 then
        display_loop rest (display_senders @ [fn @ '' (All variations)''])
      else
        (case full_list of
           [] \<Rightarrow> Inl IndexError
         | first # _ \<Rightarrow> display_loop rest (display_senders @ [first])))"

text \<open>The loop over the choices picked in the multiselect.\<close>

fun expand_selected ::
  "(string \<times> string list) list \<Rightarrow> string list \<Rightarrow> string list \<Rightarrow> py_error + string list" where
  "expand_selected grouped_senders [] selected_senders = Inr selected_senders"
| "expand_selected grouped_senders (d # rest) selected_senders =
     (if endswith d ''(All variations)'' then
        (case split d of
           [] \<Rightarrow> Inl IndexError
         | fn # _ \<Rightarrow>
             (case map_of grouped_senders fn of
                None \<Rightarrow> Inl KeyError
              | Some full_list \<Rightarrow>
                  expand_selected grouped_senders rest (selected_senders @ full_list)))
      else expand_selected grouped_senders rest (selected_senders @ [d]))"

section \<open>Model registry (\<open>admin_app.py\<close> sections 0, 1 and 4; \<open>public_app_v0.py\<close> section 1)\<close>

text \<open>
  A registry entry is a Python dict, normally \<open>{"id": ..., "public": ...}\<close>; the registry
  is a dict from alias to entry.
\<close>

type_synonym entry = "(string \<times> json) list"
type_synonym registry = "(string \<times> entry) list"

definition PRE_CREATED_MODELS :: registry where
  "PRE_CREATED_MODELS =
     [(''model_AlSpfqGn'',
         [(''id'', JStr ''ft:gpt-3.5-turbo-0125:personal::AlSpfqGn''), (''public'', JBool True)]),
      (''model_AlTffoN4'',
         [(''id'', JStr ''ft:gpt-3.5-turbo-0125:personal::AlTffoN4''), (''public'', JBool False)]),
      (''model_AlTewxyb'',
         [(''id'', JStr ''ft:gpt-3.5-turbo-0125:personal::AlTewxyb''), (''public'', JBool True)])]"

text \<open>
  The file \<open>my_saved_models.json\<close>: missing, present but failing to open or to parse, or
  holding a JSON value. The textual layout that \<open>json.dump\<close> produces and \<open>json.load\<close>
  reads back is not modelled; the file holds the value.
\<close>

datatype models_file = Absent | Unreadable | Content json

datatype notice =
    CouldNotRead
  | ErrorSaving
  | NoModelsInMemory
  | AllChangesSaved
  | ModelAdded string
  | ProvideAliasAndId

subsection \<open>\<open>load_saved_models\<close> and \<open>save_saved_models\<close>\<close>

text \<open>The conversion loop of the admin application's \<open>load_saved_models\<close>.\<close>

fun convert_entries :: "(string \<times> json) list \<Rightarrow> registry \<Rightarrow> registry" where
  "convert_entries [] converted = converted"
| "convert_entries ((alias, val) # rest) converted =
     (case val of
        JStr s \<Rightarrow>
          convert_entries rest
            (AList.update alias [(''id'', JStr s), (''public'', JBool True)] converted)
      | JObj d \<Rightarrow>
          (if map_of d ''id'' = None then convert_entries rest converted
           else convert_entries rest
                  (AList.update alias
                     (if map_of d ''public'' = None then AList.update ''public'' (JBool True) d
                      else d)
                     converted))
      | _ \<Rightarrow> convert_entries rest converted)"

definition load_saved_models :: "models_file \<Rightarrow> registry \<times> notice list" where
  "load_saved_models file =
     (case file of
        Absent \<Rightarrow> ([], [])
      | Unreadable \<Rightarrow> ([], [CouldNotRead])
      | Content data \<Rightarrow>
          (case data of
             JObj items \<Rightarrow> (convert_entries items [], [])
           | _ \<Rightarrow> ([], [])))"


text \<open>
  The program state: the dict objects in memory by reference (the module global
  \<open>PRE_CREATED_MODELS\<close> and the dict kept in the session), the session key
  \<open>"fine_tuned_models"\<close>, the registry file and the notices shown so far.
\<close>

record app_state =
  objects :: "nat \<Rightarrow> registry"
  next_ref :: nat
  session_state :: "nat option"
  saved_file :: models_file
  notices :: "notice list"

definition PRE_CREATED_MODELS_ref :: nat where
  "PRE_CREATED_MODELS_ref = 0"

definition start_state :: "registry \<Rightarrow> models_file \<Rightarrow> app_state" where
  "start_state builtin file =
     \<lparr>objects = (\<lambda>_. [])(PRE_CREATED_MODELS_ref := builtin), next_ref = 1,
      session_state = None, saved_file = file, notices = []\<rparr>"

text \<open>What the environment does with the write: it succeeds, or it fails and leaves a file.\<close>

datatype write_outcome = Written | WriteFailed models_file

definition dump_models :: "registry \<Rightarrow> json" where
  "dump_models models_dict = JObj (map (\<lambda>(alias, e). (alias, JObj e)) models_dict)"

definition save_saved_models :: "write_outcome \<Rightarrow> registry \<Rightarrow> app_state \<Rightarrow> app_state" where
  "save_saved_models wr models_dict s =
     (case wr of
        Written \<Rightarrow> s\<lparr>saved_file := Content (dump_models models_dict)\<rparr>
      | WriteFailed left \<Rightarrow> s\<lparr>saved_file := left, notices := notices s @ [ErrorSaving]\<rparr>)"

subsection \<open>\<open>create_admin_gui\<close>, part B: load or merge existing models\<close>

fun merge_loop :: "registry \<Rightarrow> registry \<Rightarrow> registry" where
  "merge_loop [] merged_models = merged_models"
| "merge_loop ((alias, data_dict) # rest) merged_models =
     merge_loop rest (AList.update alias data_dict merged_models)"

text \<open>\<open>dict(PRE_CREATED_MODELS)\<close> allocates a new dict object with the same items.\<close>

definition load_or_merge :: "app_state \<Rightarrow> app_state" where
  "load_or_merge s =
     (case session_state s of
        Some _ \<Rightarrow> s
      | None \<Rightarrow>
          (let r = next_ref s;
               s1 = s\<lparr>objects := (objects s)(r := objects s PRE_CREATED_MODELS_ref),
                      next_ref := Suc r\<rparr>;
               (user_models, warnings) = load_saved_models (saved_file s1);
               s2 = s1\<lparr>notices := notices s1 @ warnings\<rparr>;
               s3 = s2\<lparr>objects := (objects s2)(r := merge_loop user_models (objects s2 r))\<rparr>
           in s3\<lparr>session_state := Some r\<rparr>))"

subsection \<open>\<open>create_admin_gui\<close>, tab 2: manage models\<close>

text \<open>What the widgets of the tab return for each alias.\<close>

record manage_inputs =
  model_id_input :: "string \<Rightarrow> string"
  public_input :: "string \<Rightarrow> bool"
  remove_input :: "string \<Rightarrow> bool"

text \<open>The loop over \<open>sorted(all_models.keys())\<close> that fills \<open>updated_data\<close> and \<open>removed_aliases\<close>.\<close>

fun manage_form ::
  "manage_inputs \<Rightarrow> registry \<Rightarrow> string list \<Rightarrow> registry \<Rightarrow> string list
   \<Rightarrow> py_error + (registry \<times> string list)" where
  "manage_form w all_models [] updated_data removed_aliases = Inr (updated_data, removed_aliases)"
| "manage_form w all_models (alias # rest) updated_data removed_aliases =
     (case map_of all_models alias of
        None \<Rightarrow> Inl KeyError
      | Some model_info \<Rightarrow>
          (case map_of model_info ''id'' of
             None \<Rightarrow> Inl KeyError
           | Some _ \<Rightarrow>
               manage_form w all_models rest
                 (AList.update alias
                    [(''id'', JStr (model_id_input w alias)),
                     (''public'', JBool (public_input w alias))]
                    updated_data)
                 (if remove_input w alias then removed_aliases @ [alias] else removed_aliases)))"

text \<open>\<open>for alias, val in updated_data.items(): if alias not in removed_aliases: target[alias] = val\<close>\<close>

fun apply_updated :: "registry \<Rightarrow> string list \<Rightarrow> registry \<Rightarrow> registry" where
  "apply_updated [] removed_aliases target = target"
| "apply_updated ((alias, val) # rest) removed_aliases target =
     apply_updated rest removed_aliases
       (if alias \<notin> set removed_aliases then AList.update alias val target else target)"

text \<open>\<open>del d[k]\<close>\<close>

definition py_del :: "string \<Rightarrow> registry \<Rightarrow> py_error + registry" where
  "py_del k d = (if map_of d k = None then Inl KeyError else Inr (AList.delete k d))"

text \<open>\<open>for r_alias in removed_aliases: if r_alias in target: del target[r_alias]\<close>\<close>

fun delete_removed :: "string list \<Rightarrow> registry \<Rightarrow> py_error + registry" where
  "delete_removed [] target = Inr target"
| "delete_removed (r_alias # rest) target =
     (if r_alias \<in> fst ` set target then
        (case py_del r_alias target of
           Inl e \<Rightarrow> Inl e
         | Inr target' \<Rightarrow> delete_removed rest target')
      else delete_removed rest target)"

text \<open>The body of \<open>if st.button("Save All Changes")\<close>, given the two locals of the form.\<close>

definition save_all_changes ::
  "registry \<Rightarrow> string list \<Rightarrow> write_outcome \<Rightarrow> app_state \<Rightarrow> py_error + app_state" where
  "save_all_changes updated_data removed_aliases wr s =
     (case session_state s of
        None \<Rightarrow> Inl KeyError
      | Some r \<Rightarrow>
          (case delete_removed removed_aliases
                  (apply_updated updated_data removed_aliases (objects s r)) of
             Inl e \<Rightarrow> Inl e
           | Inr in_session \<Rightarrow>
               (let s1 = s\<lparr>objects := (objects s)(r := in_session)\<rparr>;
                    (user_models, warnings) = load_saved_models (saved_file s1);
                    s2 = s1\<lparr>notices := notices s1 @ warnings\<rparr>
                in (case delete_removed removed_aliases
                          (apply_updated updated_data removed_aliases user_models) of
                      Inl e \<Rightarrow> Inl e
                    | Inr user_models' \<Rightarrow>
                        (let s3 = save_saved_models wr user_models' s2
                         in Inr (s3\<lparr>notices := notices s3 @ [AllChangesSaved]\<rparr>))))))"

text \<open>The existing-models part of the tab in a run where "Save All Changes" is clicked.\<close>

definition manage_models_save ::
  "manage_inputs \<Rightarrow> write_outcome \<Rightarrow> app_state \<Rightarrow> py_error + app_state" where
  "manage_models_save w wr s =
     (case session_state s of
        None \<Rightarrow> Inl KeyError
      | Some r \<Rightarrow>
          (let all_models = objects s r
           in if all_models = [] then Inr (s\<lparr>notices := notices s @ [NoModelsInMemory]\<rparr>)
              else (case manage_form w all_models (sort (map fst all_models)) [] [] of
                      Inl e \<Rightarrow> Inl e
                    | Inr (updated_data, removed_aliases) \<Rightarrow>
                        save_all_changes updated_data removed_aliases wr s)))"

text \<open>The body of \<open>if st.button("Add/Update Model")\<close>.\<close>

definition add_update_model ::
  "string \<Rightarrow> string \<Rightarrow> bool \<Rightarrow> write_outcome \<Rightarrow> app_state \<Rightarrow> py_error + app_state" where
  "add_update_model alias_in id_in public_in wr s =
     (if strip alias_in \<noteq> [] \<and> strip id_in \<noteq> [] then
        (case session_state s of
           None \<Rightarrow> Inl KeyError
         | Some r \<Rightarrow>
             (let s1 = s\<lparr>objects := (objects s)
                         (r := AList.update alias_in
                                 [(''id'', JStr id_in), (''public'', JBool public_in)]
                                 (objects s r))\<rparr>;
                  (user_models, warnings) = load_saved_models (saved_file s1);
                  s2 = s1\<lparr>notices := notices s1 @ warnings\<rparr>;
                  user_models' = AList.update alias_in
                                   [(''id'', JStr id_in), (''public'', JBool public_in)]
                                   user_models;
                  s3 = save_saved_models wr user_models' s2
              in Inr (s3\<lparr>notices := notices s3 @ [ModelAdded alias_in]\<rparr>)))
      else Inr (s\<lparr>notices := notices s @ [ProvideAliasAndId]\<rparr>))"

text \<open>The merged view of a state: the dict the session key refers to.\<close>

definition merged_view :: "app_state \<Rightarrow> registry" where
  "merged_view s = (case session_state s of None \<Rightarrow> [] | Some r \<Rightarrow> objects s r)"

section \<open>Notions used to state the properties\<close>

definition sender_matches :: "string list \<Rightarrow> csv_row \<Rightarrow> bool" where
  "sender_matches selected_senders row =
     (\<exists>s \<in> set selected_senders. lower (strip (get_or_empty row ''Parsed From'')) = lower s)"

definition fields_present :: "csv_row \<Rightarrow> bool" where
  "fields_present row =
     (map_of row ''Parsed Subject'' \<noteq> Some None \<and> map_of row ''Parsed Body'' \<noteq> Some None)"

definition row_record :: "csv_row \<Rightarrow> message list" where
  "row_record row =
     data_line (strip (get_or_empty row ''Parsed Subject''))
               (strip (get_or_empty row ''Parsed Body''))"


text \<open>
  The normal form of a stored value, in the words of the specification: a bare string is
  the id of a public entry, a dict without \<open>id\<close> is no entry, a dict without
  \<open>public\<close> is public. Values that are neither strings nor dicts are no entries.
\<close>

definition normalized_entry :: "json \<Rightarrow> entry option" where
  "normalized_entry val =
     (case val of
        JStr s \<Rightarrow> Some [(''id'', JStr s), (''public'', JBool True)]
      | JObj d \<Rightarrow>
          (if map_of d ''id'' = None then None
           else if map_of d ''public'' = None then Some (d @ [(''public'', JBool True)])
           else Some d)
      | _ \<Rightarrow> None)"

section \<open>Properties of the training-set builder\<close>

subsection \<open>The loop as a filter\<close>

lemma sender_matches_iff: "sender_matches sel row \<longleftrightarrow> parsed_sender row \<in> set (map lower sel)"
  by (auto simp: sender_matches_def parsed_sender_def)

lemma get_default_strip_present:
  "map_of row k \<noteq> Some None \<Longrightarrow> get_default_strip row k = Inr (strip (get_or_empty row k))"
  by (auto simp: get_default_strip_def get_or_empty_def split: option.splits)

lemma get_default_strip_None:
  "map_of row k = Some None \<Longrightarrow> get_default_strip row k = Inl AttributeError"
  by (simp add: get_default_strip_def)

lemma build_loop_ok:
  "\<forall>row \<in> set rows. parsed_sender row \<in> set ls \<longrightarrow> fields_present row \<Longrightarrow>
   build_loop ls rows written count =
     (written @ concat (map (\<lambda>r. json_dumps (row_record r) @ [CHR 0x0A])
                            (filter (\<lambda>r. parsed_sender r \<in> set ls) rows)),
      Inr (count + length (filter (\<lambda>r. parsed_sender r \<in> set ls) rows)))"
proof (induction rows arbitrary: written count)
  case Nil
  then show ?case by simp
next
  case (Cons row rows)
  show ?case
  proof (cases "parsed_sender row \<in> set ls")
    case True
    with Cons.prems have fp: "fields_present row" by simp
    have s: "get_default_strip row ''Parsed Subject'' = Inr (strip (get_or_empty row ''Parsed Subject''))"
      and b: "get_default_strip row ''Parsed Body'' = Inr (strip (get_or_empty row ''Parsed Body''))"
      using fp by (simp_all add: fields_present_def get_default_strip_present)
    from Cons.prems have rest: "\<forall>row \<in> set rows. parsed_sender row \<in> set ls \<longrightarrow> fields_present row"
      by simp
    show ?thesis
      using True by (simp add: s b Cons.IH [OF rest] row_record_def)
  next
    case False
    from Cons.prems have rest: "\<forall>row \<in> set rows. parsed_sender row \<in> set ls \<longrightarrow> fields_present row"
      by simp
    show ?thesis using False by (simp add: Cons.IH [OF rest])
  qed
qed

lemma build_loop_raises:
  "\<exists>row \<in> set rows. parsed_sender row \<in> set ls \<and> \<not> fields_present row \<Longrightarrow>
   snd (build_loop ls rows written count) = Inl AttributeError"
proof (induction rows arbitrary: written count)
  case Nil
  then show ?case by simp
next
  case (Cons row rows)
  show ?case
  proof (cases "parsed_sender row \<in> set ls")
    case False
    with Cons.prems have "\<exists>row \<in> set rows. parsed_sender row \<in> set ls \<and> \<not> fields_present row"
      by auto
    from Cons.IH [OF this] False show ?thesis by simp
  next
    case True
    show ?thesis
    proof (cases "fields_present row")
      case fp: True
      with Cons.prems have "\<exists>row \<in> set rows. parsed_sender row \<in> set ls \<and> \<not> fields_present row"
        by auto
      note ih = Cons.IH [OF this]
      have s: "get_default_strip row ''Parsed Subject'' = Inr (strip (get_or_empty row ''Parsed Subject''))"
        and b: "get_default_strip row ''Parsed Body'' = Inr (strip (get_or_empty row ''Parsed Body''))"
        using fp by (simp_all add: fields_present_def get_default_strip_present)
      show ?thesis using True by (simp add: s b ih)
    next
      case False
      then show ?thesis using True
        by (auto simp: fields_present_def get_default_strip_def split: option.splits sum.splits)
    qed
  qed
qed










lemma build_jsonl_ok:
  assumes "\<forall>row \<in> set rows. sender_matches sel row \<longrightarrow> fields_present row"
  shows "build_jsonl_for_senders rows sel out fs =
     (fs(out \<mapsto> concat (map (\<lambda>r. json_dumps (row_record r) @ [CHR 0x0A])
                               (filter (sender_matches sel) rows))),
      Inr (length (filter (sender_matches sel) rows)))"
proof -
  have f: "(\<lambda>r. parsed_sender r \<in> lower ` set sel) = sender_matches sel"
    by (simp add: sender_matches_iff fun_eq_iff)
  from assms have "\<forall>row \<in> set rows. parsed_sender row \<in> set (map lower sel) \<longrightarrow> fields_present row"
    by (simp add: sender_matches_iff)
  from build_loop_ok [OF this, of "[]" 0] show ?thesis
    by (simp add: build_jsonl_for_senders_def f)
qed



subsection \<open>Trimmed and untrimmed senders\<close>

lemma isspace_lower_char: "isspace (lower_char c) = isspace c"
  by (auto simp: isspace_def lower_char_def Let_def)

lemma last_dropWhile_nonempty: "dropWhile P xs \<noteq> [] \<Longrightarrow> last (dropWhile P xs) = last xs"
proof -
  assume ne: "dropWhile P xs \<noteq> []"
  have "last xs = last (takeWhile P xs @ dropWhile P xs)" by simp
  also have "\<dots> = last (dropWhile P xs)" using ne by (rule last_appendR)
  finally show ?thesis by simp
qed

lemma strip_ends:
  assumes "strip x \<noteq> []"
  shows "\<not> isspace (hd (strip x))" and "\<not> isspace (last (strip x))"
proof -
  let ?y = "dropWhile isspace x"
  let ?z = "dropWhile isspace (rev ?y)"
  from assms have z: "?z \<noteq> []" by (simp add: strip_def)
  have y: "?y \<noteq> []"
  proof
    assume "?y = []"
    then have "?z = []" by (simp only: rev.simps(1) dropWhile.simps(1))
    with z show False by (simp only: not_True_eq_False simp_thms)
  qed
  have "last (strip x) = hd ?z" using z by (simp add: strip_def last_rev)
  moreover have "\<not> isspace (hd ?z)" using z by (rule hd_dropWhile)
  ultimately show "\<not> isspace (last (strip x))" by simp
  have "hd (strip x) = last ?z" using z by (simp add: strip_def hd_rev)
  also have "\<dots> = last (rev ?y)" using z by (rule last_dropWhile_nonempty)
  also have "\<dots> = hd ?y" using y by (simp add: last_rev)
  finally have "hd (strip x) = hd ?y" .
  moreover have "\<not> isspace (hd ?y)" using y by (rule hd_dropWhile)
  ultimately show "\<not> isspace (hd (strip x))" by simp
qed

lemma strip_id:
  assumes "s \<noteq> []" and "\<not> isspace (hd s)" and "\<not> isspace (last s)"
  shows "strip s = s"
proof -
  from assms(1,2) have 1: "dropWhile isspace s = s" by (cases s) auto
  from assms(1,3) have "\<not> isspace (hd (rev s))" by (simp add: hd_rev)
  with assms(1) have 2: "dropWhile isspace (rev s) = rev s" by (cases "rev s") auto
  show ?thesis by (simp add: strip_def 1 2)
qed

lemma untrimmed_never_matches:
  assumes "s \<noteq> strip s"
  shows "lower (strip x) \<noteq> lower s"
proof
  assume eq: "lower (strip x) = lower s"
  have ne: "s \<noteq> []" using assms by (auto simp: strip_def)
  with eq have nx: "strip x \<noteq> []" by (auto simp: lower_def)
  from assms ne strip_id [of s] have "isspace (hd s) \<or> isspace (last s)" by auto
  then show False
  proof
    assume "isspace (hd s)"
    then have "isspace (hd (lower s))" using ne by (simp add: lower_def hd_map isspace_lower_char)
    with eq have "isspace (hd (lower (strip x)))" by simp
    then have "isspace (hd (strip x))" using nx by (simp add: lower_def hd_map isspace_lower_char)
    with strip_ends(1) [OF nx] show False by simp
  next
    assume "isspace (last s)"
    then have "isspace (last (lower s))" using ne by (simp add: lower_def last_map isspace_lower_char)
    with eq have "isspace (last (lower (strip x)))" by simp
    then have "isspace (last (strip x))" using nx by (simp add: lower_def last_map isspace_lower_char)
    with strip_ends(2) [OF nx] show False by simp
  qed
qed

subsection \<open>Claims about the builder\<close>

text \<open>
  C4. The builder is meant to default an absent subject or body to the empty string and
  never to raise. On a short CSV line \<open>csv.DictReader\<close> binds the missing columns to
  \<open>None\<close>; \<open>row.get("Parsed Subject", "")\<close> then returns \<open>None\<close>, not the default, and
  \<open>.strip()\<close> raises \<open>AttributeError\<close>. The sender field, read with
  \<open>row.get("Parsed From") or ""\<close>, does not have this problem. The row below is what the
  reader yields for the line \<open>alice\<close> under the header
  \<open>Parsed From,Parsed Subject,Parsed Body\<close>.
\<close>

theorem build_raises_on_short_row:
  "snd (build_jsonl_for_senders
     [[(''Parsed From'', Some ''alice''), (''Parsed Subject'', None), (''Parsed Body'', None)]]
     [''alice''] ''filtered_data.jsonl'' Map.empty) = Inl AttributeError"
  by code_simp

text \<open>
  C1, as the code has it. The builder selects exactly the rows whose sender field, trimmed
  and lower-cased, equals the lower-cased form of some selected sender: the count returned
  is the number of those rows and the file holds their records, in order. The selected
  senders are lower-cased but not trimmed, so a selected sender that carries surrounding
  whitespace matches no row. Selecting \<open>"ALICE"\<close> matches a row whose sender is
  \<open>"alice "\<close>. The count and the file are stated for rows whose selected members have
  no \<open>None\<close> subject or body, on which the builder returns.
\<close>

theorem build_selects_matching_senders:
  assumes "\<forall>row \<in> set rows. sender_matches sel row \<longrightarrow> fields_present row"
  shows "snd (build_jsonl_for_senders rows sel out fs) =
           Inr (length (filter (sender_matches sel) rows))
         \<and> fst (build_jsonl_for_senders rows sel out fs) out =
           Some (concat (map (\<lambda>row. json_dumps (row_record row) @ [CHR 0x0A])
                             (filter (sender_matches sel) rows)))
         \<and> (\<forall>row. sender_matches sel row \<longleftrightarrow>
                (\<exists>s \<in> set sel. lower (strip (get_or_empty row ''Parsed From'')) = lower s))
         \<and> (\<forall>s row. s \<noteq> strip s \<longrightarrow>
                lower (strip (get_or_empty row ''Parsed From'')) \<noteq> lower s)"
  using build_jsonl_ok [OF assms, of out fs]
  by (simp add: untrimmed_never_matches) (simp add: sender_matches_def)

theorem build_selects_matching_senders_witness:
  "filter (sender_matches [''ALICE''])
        [[(''Parsed From'', Some ''alice ''), (''Parsed Subject'', Some ''Hi''),
          (''Parsed Body'', Some ''Hello there'')],
         [(''Parsed From'', Some ''Bob''), (''Parsed Subject'', Some ''X''),
          (''Parsed Body'', Some ''Y'')]]
      = [[(''Parsed From'', Some ''alice ''), (''Parsed Subject'', Some ''Hi''),
          (''Parsed Body'', Some ''Hello there'')]]
   \<and> snd (build_jsonl_for_senders
        [[(''Parsed From'', Some ''alice ''), (''Parsed Subject'', Some ''Hi''),
          (''Parsed Body'', Some ''Hello there'')],
         [(''Parsed From'', Some ''Bob''), (''Parsed Subject'', Some ''X''),
          (''Parsed Body'', Some ''Y'')]]
        [''ALICE''] ''filtered_data.jsonl'' Map.empty) = Inr 1"
proof -
  let ?rows = "[[(''Parsed From'', Some ''alice ''), (''Parsed Subject'', Some ''Hi''),
                 (''Parsed Body'', Some ''Hello there'')],
                [(''Parsed From'', Some ''Bob''), (''Parsed Subject'', Some ''X''),
                 (''Parsed Body'', Some ''Y'')]]"
  have h: "\<forall>row \<in> set ?rows. sender_matches [''ALICE''] row \<longrightarrow> fields_present row"
    by code_simp
  have f: "filter (sender_matches [''ALICE'']) ?rows = [hd ?rows]"
    by code_simp
  from build_selects_matching_senders [OF h, of "''filtered_data.jsonl''" Map.empty] f
  show ?thesis by simp
qed

text \<open>
  The selected senders are not trimmed: the selection \<open>" alice "\<close> does not match the
  stored sender \<open>"alice"\<close>, and no record is built.
\<close>

theorem untrimmed_selection_counterexample:
  "snd (build_jsonl_for_senders
          [[(''Parsed From'', Some ''alice''), (''Parsed Subject'', Some ''Hi''),
            (''Parsed Body'', Some ''Hello there'')]]
          ['' alice ''] ''filtered_data.jsonl'' Map.empty) = Inr 0"
  by code_simp



section \<open>Properties of the model registry\<close>

subsection \<open>Loading, saving and merging\<close>

lemma update_absent: "map_of d k = None \<Longrightarrow> AList.update k v d = d @ [(k, v)]"
  by (induction d) (auto split: if_splits)

lemma convert_entries_step:
  "convert_entries ((alias, val) # rest) converted =
     convert_entries rest
       (case normalized_entry val of None \<Rightarrow> converted
        | Some e \<Rightarrow> AList.update alias e converted)"
  by (cases val) (simp_all add: normalized_entry_def update_absent)

lemma convert_entries_map_of:
  "distinct (map fst items) \<Longrightarrow>
   map_of (convert_entries items converted) k =
     (case map_of items k of
        None \<Rightarrow> map_of converted k
      | Some val \<Rightarrow> (case normalized_entry val of None \<Rightarrow> map_of converted k | Some e \<Rightarrow> Some e))"
proof (induction items arbitrary: converted)
  case Nil
  then show ?case by simp
next
  case (Cons p items)
  obtain a val where p: "p = (a, val)" by (cases p)
  from Cons.prems p have d: "distinct (map fst items)" and n: "a \<notin> fst ` set items"
    by auto
  from n have none: "map_of items a = None"
    by (simp add: map_of_eq_None_iff)
  show ?case
    unfolding p convert_entries_step
    by (simp add: Cons.IH [OF d] none update_conv' split: option.splits)
qed

lemma convert_entries_distinct:
  "distinct (map fst converted) \<Longrightarrow> distinct (map fst (convert_entries items converted))"
proof (induction items arbitrary: converted)
  case Nil
  then show ?case by simp
next
  case (Cons p items)
  obtain a val where p: "p = (a, val)" by (cases p)
  show ?case
    unfolding p convert_entries_step
    by (rule Cons.IH) (simp add: Cons.prems distinct_update split: option.splits)
qed

lemma load_saved_models_distinct: "distinct (map fst (fst (load_saved_models file)))"
  by (simp add: load_saved_models_def convert_entries_distinct
           split: models_file.splits json.splits)

lemma merge_loop_map_of:
  "distinct (map fst user_models) \<Longrightarrow>
   map_of (merge_loop user_models merged) k =
     (case map_of user_models k of None \<Rightarrow> map_of merged k | Some e \<Rightarrow> Some e)"
proof (induction user_models arbitrary: merged)
  case Nil
  then show ?case by simp
next
  case (Cons p rest)
  obtain a e where p: "p = (a, e)" by (cases p)
  from Cons.prems p have d: "distinct (map fst rest)" and n: "a \<notin> fst ` set rest"
    by auto
  from n have none: "map_of rest a = None"
    by (simp add: map_of_eq_None_iff)
  show ?case
    unfolding p by (simp add: Cons.IH [OF d] none update_conv' split: option.splits)
qed

lemma normalized_entry_full:
  "normalized_entry (JObj [(''id'', i), (''public'', p)]) = Some [(''id'', i), (''public'', p)]"
  by (simp add: normalized_entry_def)

lemma load_after_dump:
  "distinct (map fst models_dict) \<Longrightarrow>
   map_of (fst (load_saved_models (Content (dump_models models_dict)))) k =
     (case map_of models_dict k of None \<Rightarrow> None | Some e \<Rightarrow> normalized_entry (JObj e))"
proof -
  assume d: "distinct (map fst models_dict)"
  have k: "map fst (map (\<lambda>(a, e). (a, JObj e)) models_dict) = map fst models_dict"
    by (induction models_dict) auto
  have m: "map_of (map (\<lambda>(a, e). (a, JObj e)) models_dict) k = map_option JObj (map_of models_dict k)"
    by (induction models_dict) auto
  from d have d': "distinct (map fst (map (\<lambda>(a, e). (a, JObj e)) models_dict))"
    unfolding k .
  show ?thesis
    by (simp add: load_saved_models_def dump_models_def convert_entries_map_of [OF d'] m
             split: option.splits)
qed

lemma load_or_merge_fresh:
  assumes "session_state s = None"
  shows "session_state (load_or_merge s) = Some (next_ref s)"
    and "objects (load_or_merge s) (next_ref s) =
           merge_loop (fst (load_saved_models (saved_file s))) (objects s PRE_CREATED_MODELS_ref)"
    and "r \<noteq> next_ref s \<Longrightarrow> objects (load_or_merge s) r = objects s r"
    and "saved_file (load_or_merge s) = saved_file s"
  using assms by (simp_all add: load_or_merge_def Let_def split: prod.splits)


subsection \<open>The manage-models tab\<close>

lemma manage_form_ok:
  "\<forall>a \<in> set keys. \<exists>info. map_of all_models a = Some info \<and> map_of info ''id'' \<noteq> None \<Longrightarrow>
   manage_form w all_models keys updated removed =
     Inr (fold (\<lambda>a. AList.update a [(''id'', JStr (model_id_input w a)),
                                      (''public'', JBool (public_input w a))]) keys updated,
          removed @ filter (remove_input w) keys)"
proof (induction keys arbitrary: updated removed)
  case Nil
  then show ?case by simp
next
  case (Cons a keys)
  from Cons.prems obtain info i where "map_of all_models a = Some info" "map_of info ''id'' = Some i"
    by auto
  moreover from Cons.prems
  have "\<forall>a \<in> set keys. \<exists>info. map_of all_models a = Some info \<and> map_of info ''id'' \<noteq> None"
    by simp
  ultimately show ?case by (simp add: Cons.IH)
qed

lemma fold_update_map_of:
  "map_of (fold (\<lambda>a. AList.update a (f a)) keys updated) k =
     (if k \<in> set keys then Some (f k) else map_of updated k)"
  by (induction keys arbitrary: updated) (auto simp: update_conv')

lemma fold_update_distinct:
  "distinct (map fst updated) \<Longrightarrow>
   distinct (map fst (fold (\<lambda>a. AList.update a (f a)) keys updated))"
  by (induction keys arbitrary: updated) (auto simp: distinct_update)

lemma apply_updated_map_of:
  "distinct (map fst updated) \<Longrightarrow>
   map_of (apply_updated updated removed target) k =
     (case map_of updated k of
        None \<Rightarrow> map_of target k
      | Some v \<Rightarrow> if k \<in> set removed then map_of target k else Some v)"
proof (induction updated arbitrary: target)
  case Nil
  then show ?case by simp
next
  case (Cons p updated)
  obtain a v where p: "p = (a, v)" by (cases p)
  from Cons.prems p have d: "distinct (map fst updated)" and n: "a \<notin> fst ` set updated"
    by auto
  from n have none: "map_of updated a = None"
    by (simp add: map_of_eq_None_iff)
  show ?case
    unfolding p by (simp add: Cons.IH [OF d] none update_conv' split: option.splits)
qed

lemma apply_updated_distinct:
  "distinct (map fst target) \<Longrightarrow> distinct (map fst (apply_updated updated removed target))"
  by (induction updated arbitrary: target) (auto simp: distinct_update)

lemma apply_updated_Nil: "apply_updated [] removed target = target"
  by simp

lemma delete_absent: "k \<notin> fst ` set d \<Longrightarrow> AList.delete k d = d"
  by (induction d) auto

lemma delete_removed_ok: "delete_removed removed target = Inr (fold AList.delete removed target)"
proof (induction removed arbitrary: target)
  case Nil
  then show ?case by simp
next
  case (Cons r removed)
  show ?case
  proof (cases "r \<in> fst ` set target")
    case True
    then have "map_of target r \<noteq> None" by (simp add: map_of_eq_None_iff)
    with True show ?thesis by (simp add: py_del_def Cons.IH)
  next
    case False
    then show ?thesis by (simp add: Cons.IH delete_absent)
  qed
qed

lemma fold_delete_map_of:
  "map_of (fold AList.delete removed target) k =
     (if k \<in> set removed then None else map_of target k)"
  by (induction removed arbitrary: target) (auto simp: delete_conv')

lemma fold_delete_distinct:
  "distinct (map fst target) \<Longrightarrow> distinct (map fst (fold AList.delete removed target))"
  by (induction removed arbitrary: target) (auto simp: distinct_delete)

lemma fold_delete_absent:
  "\<forall>r \<in> set removed. r \<notin> fst ` set target \<Longrightarrow> fold AList.delete removed target = target"
  by (induction removed arbitrary: target) (auto simp: delete_absent)

lemma save_all_changes_ok:
  assumes "session_state s = Some r"
  shows "save_all_changes updated removed Written s =
     Inr (s\<lparr>objects := (objects s)
              (r := fold AList.delete removed (apply_updated updated removed (objects s r))),
            notices := notices s @ snd (load_saved_models (saved_file s)) @ [AllChangesSaved],
            saved_file := Content (dump_models
              (fold AList.delete removed
                 (apply_updated updated removed (fst (load_saved_models (saved_file s))))))\<rparr>)"
  using assms
  by (simp add: save_all_changes_def save_saved_models_def delete_removed_ok Let_def
           split: prod.splits)








lemma manage_models_save_ok:
  assumes s: "session_state s = Some r"
      and ne: "objects s r \<noteq> []"
      and ids: "\<forall>k info. map_of (objects s r) k = Some info \<longrightarrow> map_of info ''id'' \<noteq> None"
  shows "manage_models_save w Written s =
           save_all_changes
             (fold (\<lambda>a. AList.update a [(''id'', JStr (model_id_input w a)),
                                          (''public'', JBool (public_input w a))])
                   (sort (map fst (objects s r))) [])
             (filter (remove_input w) (sort (map fst (objects s r)))) Written s"
proof -
  have "\<forall>a \<in> set (sort (map fst (objects s r))).
          \<exists>info. map_of (objects s r) a = Some info \<and> map_of info ''id'' \<noteq> None"
  proof
    fix a assume "a \<in> set (sort (map fst (objects s r)))"
    then have "a \<in> fst ` set (objects s r)" by simp
    then have "map_of (objects s r) a \<noteq> None" by (simp add: map_of_eq_None_iff)
    then obtain info where "map_of (objects s r) a = Some info" by auto
    with ids show "\<exists>info. map_of (objects s r) a = Some info \<and> map_of info ''id'' \<noteq> None"
      by auto
  qed
  from manage_form_ok [OF this, of w "[]" "[]"] s ne show ?thesis
    by (simp add: manage_models_save_def Let_def)
qed

lemma merged_view_after_load:
  assumes "session_state t = None"
  shows "map_of (merged_view (load_or_merge t)) k =
           (case map_of (fst (load_saved_models (saved_file t))) k of
              Some e \<Rightarrow> Some e
            | None \<Rightarrow> map_of (objects t PRE_CREATED_MODELS_ref) k)"
  by (simp add: merged_view_def load_or_merge_fresh [OF assms]
                merge_loop_map_of [OF load_saved_models_distinct] split: option.splits)




subsection \<open>The state after the first run on the shipped defaults\<close>

lemma s0_session: "session_state (load_or_merge (start_state PRE_CREATED_MODELS Absent)) = Some (Suc 0)"
  by (simp add: load_or_merge_def start_state_def Let_def split: prod.splits)

lemma s0_view: "objects (load_or_merge (start_state PRE_CREATED_MODELS Absent)) (Suc 0) = PRE_CREATED_MODELS"
  by (simp add: load_or_merge_def start_state_def Let_def load_saved_models_def
                PRE_CREATED_MODELS_ref_def split: prod.splits)

lemma pre_ids: "map_of PRE_CREATED_MODELS k = Some info \<Longrightarrow> map_of info ''id'' \<noteq> None"
  by (auto simp: PRE_CREATED_MODELS_def split: if_splits)

lemma s0_merged_view:
  "merged_view (load_or_merge (start_state PRE_CREATED_MODELS Absent)) = PRE_CREATED_MODELS"
  by (simp add: merged_view_def s0_session s0_view)

subsection \<open>Claims about the registry\<close>




text \<open>
  C3. The merged view maps each alias to the entry of the user store when there is one and
  to the builtin entry otherwise: a user entry replaces the builtin entry of the same
  alias as a whole. The dict object \<open>PRE_CREATED_MODELS\<close> is the same after the merged
  view has been built, for every builtin mapping and every stored file.
\<close>

theorem merged_view_prefers_user_entries:
  assumes "session_state s = None" and "PRE_CREATED_MODELS_ref < next_ref s"
  shows "(\<forall>k. map_of (merged_view (load_or_merge s)) k =
              (case map_of (fst (load_saved_models (saved_file s))) k of
                 Some e \<Rightarrow> Some e
               | None \<Rightarrow> map_of (objects s PRE_CREATED_MODELS_ref) k))
       \<and> objects (load_or_merge s) PRE_CREATED_MODELS_ref = objects s PRE_CREATED_MODELS_ref"
proof -
  from assms(2) have ne: "PRE_CREATED_MODELS_ref \<noteq> next_ref s" by simp
  have v: "merged_view (load_or_merge s) =
             merge_loop (fst (load_saved_models (saved_file s))) (objects s PRE_CREATED_MODELS_ref)"
    by (simp add: merged_view_def load_or_merge_fresh [OF assms(1)])
  show ?thesis
    by (simp add: v merge_loop_map_of [OF load_saved_models_distinct]
                  load_or_merge_fresh(3) [OF assms(1) ne] split: option.splits)
qed

theorem merged_view_prefers_user_entries_witness:
  "map_of (merged_view (load_or_merge
      (start_state [(''m1'', [(''id'', JStr ''A''), (''public'', JBool True)]),
                    (''m0'', [(''id'', JStr ''Z''), (''public'', JBool True)])]
         (Content (JObj [(''m1'', JObj [(''id'', JStr ''B''), (''public'', JBool False)])]))))) ''m1''
     = Some [(''id'', JStr ''B''), (''public'', JBool False)]
   \<and> map_of (merged_view (load_or_merge
      (start_state [(''m1'', [(''id'', JStr ''A''), (''public'', JBool True)]),
                    (''m0'', [(''id'', JStr ''Z''), (''public'', JBool True)])]
         (Content (JObj [(''m1'', JObj [(''id'', JStr ''B''), (''public'', JBool False)])]))))) ''m0''
     = Some [(''id'', JStr ''Z''), (''public'', JBool True)]
   \<and> objects (load_or_merge
      (start_state [(''m1'', [(''id'', JStr ''A''), (''public'', JBool True)]),
                    (''m0'', [(''id'', JStr ''Z''), (''public'', JBool True)])]
         (Content (JObj [(''m1'', JObj [(''id'', JStr ''B''), (''public'', JBool False)])]))))
      PRE_CREATED_MODELS_ref
     = [(''m1'', [(''id'', JStr ''A''), (''public'', JBool True)]),
        (''m0'', [(''id'', JStr ''Z''), (''public'', JBool True)])]"
proof -
  let ?s = "start_state [(''m1'', [(''id'', JStr ''A''), (''public'', JBool True)]),
                         (''m0'', [(''id'', JStr ''Z''), (''public'', JBool True)])]
              (Content (JObj [(''m1'', JObj [(''id'', JStr ''B''), (''public'', JBool False)])]))"
  have a: "session_state ?s = None" by (simp add: start_state_def)
  have b: "PRE_CREATED_MODELS_ref < next_ref ?s"
    by (simp add: start_state_def PRE_CREATED_MODELS_ref_def)
  have l: "fst (load_saved_models (saved_file ?s)) = [(''m1'', [(''id'', JStr ''B''), (''public'', JBool False)])]"
    by (simp add: start_state_def load_saved_models_def)
  have o: "objects ?s PRE_CREATED_MODELS_ref = [(''m1'', [(''id'', JStr ''A''), (''public'', JBool True)]),
                         (''m0'', [(''id'', JStr ''Z''), (''public'', JBool True)])]"
    by (simp add: start_state_def)
  from merged_view_prefers_user_entries [OF a b] show ?thesis
    unfolding l o by simp
qed



text \<open>
  C7. An upsert whose alias or id is empty after trimming is rejected with a warning and
  changes nothing: the merged view, every dict in memory and the file stay as they were.
\<close>

theorem upsert_rejected_when_blank:
  assumes "strip alias_in = [] \<or> strip id_in = []"
  shows "\<exists>s'. add_update_model alias_in id_in public_in wr s = Inr s'
           \<and> notices s' = notices s @ [ProvideAliasAndId]
           \<and> merged_view s' = merged_view s
           \<and> objects s' = objects s
           \<and> session_state s' = session_state s
           \<and> saved_file s' = saved_file s"
  using assms by (auto simp: add_update_model_def merged_view_def split: option.splits)

theorem upsert_rejected_when_blank_witness:
  "\<exists>s'. add_update_model ''  '' ''ft:abc'' True Written
           (load_or_merge (start_state PRE_CREATED_MODELS Absent)) = Inr s'
       \<and> notices s' = notices (load_or_merge (start_state PRE_CREATED_MODELS Absent))
                        @ [ProvideAliasAndId]
       \<and> merged_view s' = merged_view (load_or_merge (start_state PRE_CREATED_MODELS Absent))
       \<and> objects s' = objects (load_or_merge (start_state PRE_CREATED_MODELS Absent))
       \<and> session_state s' = session_state (load_or_merge (start_state PRE_CREATED_MODELS Absent))
       \<and> saved_file s' = saved_file (load_or_merge (start_state PRE_CREATED_MODELS Absent))"
proof -
  have "strip ''  '' = []" by code_simp
  then have "strip ''  '' = [] \<or> strip ''ft:abc'' = []" by simp
  from upsert_rejected_when_blank [OF this] show ?thesis .
qed



text \<open>
  C10. "Save All Changes" writes every alias of the merged view that is not flagged for
  removal, builtin aliases included, into the file, with the values of the form. After it,
  loading the file yields those entries, and every later merge of the builtin defaults
  with this file maps these aliases to the entries of the file.
\<close>

theorem bulk_save_materializes_view_entries:
  assumes s: "session_state s = Some r"
      and ne: "objects s r \<noteq> []"
      and ids: "\<forall>k info. map_of (objects s r) k = Some info \<longrightarrow> map_of info ''id'' \<noteq> None"
  shows "\<exists>s'. manage_models_save w Written s = Inr s' \<and>
           (\<forall>k. k \<in> fst ` set (merged_view s) \<and> \<not> remove_input w k \<longrightarrow>
                map_of (fst (load_saved_models (saved_file s'))) k =
                  Some [(''id'', JStr (model_id_input w k)), (''public'', JBool (public_input w k))]
              \<and> map_of (merged_view s') k =
                  Some [(''id'', JStr (model_id_input w k)), (''public'', JBool (public_input w k))]
              \<and> (\<forall>t. session_state t = None \<and> saved_file t = saved_file s' \<longrightarrow>
                    map_of (merged_view (load_or_merge t)) k =
                      Some [(''id'', JStr (model_id_input w k)),
                            (''public'', JBool (public_input w k))]))"
proof -
  let ?E = "\<lambda>a. [(''id'', JStr (model_id_input w a)), (''public'', JBool (public_input w a))]"
  let ?keys = "sort (map fst (objects s r))"
  let ?U = "fold (\<lambda>a. AList.update a (?E a)) ?keys []"
  let ?R = "filter (remove_input w) ?keys"
  let ?L = "fst (load_saved_models (saved_file s))"
  let ?X = "fold AList.delete ?R (apply_updated ?U ?R ?L)"
  let ?s' = "s\<lparr>objects := (objects s)(r := fold AList.delete ?R (apply_updated ?U ?R (objects s r))),
               notices := notices s @ snd (load_saved_models (saved_file s)) @ [AllChangesSaved],
               saved_file := Content (dump_models ?X)\<rparr>"
  have run: "manage_models_save w Written s = Inr ?s'"
    by (simp only: manage_models_save_ok [OF s ne ids] save_all_changes_ok [OF s])
  have dU: "distinct (map fst ?U)" by (rule fold_update_distinct) simp
  have dX: "distinct (map fst ?X)"
    by (intro fold_delete_distinct apply_updated_distinct load_saved_models_distinct)
  have mv: "merged_view s = objects s r" using s by (simp add: merged_view_def)
  {
    fix k assume k: "k \<in> fst ` set (merged_view s)" and nr: "\<not> remove_input w k"
    from k mv have kk: "k \<in> set ?keys" by simp
    have U: "map_of ?U k = Some (?E k)" using kk by (simp add: fold_update_map_of)
    have R: "k \<notin> set ?R" using nr by simp
    have A: "map_of (apply_updated ?U ?R target) k = Some (?E k)" for target
      by (simp only: apply_updated_map_of [OF dU] U R option.case if_False)
    have X: "map_of ?X k = Some (?E k)"
      by (simp only: fold_delete_map_of R A if_False)
    have onfile: "map_of (fst (load_saved_models (saved_file ?s'))) k = Some (?E k)"
      by (simp add: load_after_dump [OF dX] X normalized_entry_full)
    have view: "map_of (merged_view ?s') k = Some (?E k)"
      using s by (simp add: merged_view_def) (simp only: fold_delete_map_of R A if_False)
    have later: "map_of (merged_view (load_or_merge t)) k = Some (?E k)"
      if "session_state t = None" "saved_file t = saved_file ?s'" for t
      using onfile that by (simp add: merged_view_after_load)
    note onfile view later
  }
  with run show ?thesis by blast
qed

theorem bulk_save_materializes_view_entries_witness:
  "\<exists>s'. manage_models_save
           \<lparr>model_id_input = (\<lambda>a. ''ft:edited''), public_input = (\<lambda>a. False),
            remove_input = (\<lambda>a. False)\<rparr>
           Written (load_or_merge (start_state PRE_CREATED_MODELS Absent)) = Inr s'
       \<and> map_of (fst (load_saved_models (saved_file s'))) ''model_AlSpfqGn'' =
           Some [(''id'', JStr ''ft:edited''), (''public'', JBool False)]
       \<and> map_of (merged_view (load_or_merge (start_state PRE_CREATED_MODELS (saved_file s'))))
           ''model_AlSpfqGn'' =
           Some [(''id'', JStr ''ft:edited''), (''public'', JBool False)]"
proof -
  let ?w = "\<lparr>model_id_input = (\<lambda>a. ''ft:edited''), public_input = (\<lambda>a. False),
             remove_input = (\<lambda>a. False)\<rparr>"
  let ?s = "load_or_merge (start_state PRE_CREATED_MODELS Absent)"
  have ne: "objects ?s (Suc 0) \<noteq> []"
    unfolding s0_view by (simp add: PRE_CREATED_MODELS_def)
  have ids: "\<forall>k info. map_of (objects ?s (Suc 0)) k = Some info \<longrightarrow> map_of info ''id'' \<noteq> None"
    by (simp add: s0_view pre_ids)
  from bulk_save_materializes_view_entries [OF s0_session ne ids, of ?w]
  obtain s' where run: "manage_models_save ?w Written ?s = Inr s'"
    and all: "\<And>k. k \<in> fst ` set (merged_view ?s) \<Longrightarrow> \<not> remove_input ?w k \<Longrightarrow>
                map_of (fst (load_saved_models (saved_file s'))) k =
                  Some [(''id'', JStr (model_id_input ?w k)), (''public'', JBool (public_input ?w k))]
              \<and> (\<forall>t. session_state t = None \<and> saved_file t = saved_file s' \<longrightarrow>
                    map_of (merged_view (load_or_merge t)) k =
                      Some [(''id'', JStr (model_id_input ?w k)),
                            (''public'', JBool (public_input ?w k))])"
    by blast
  have k: "''model_AlSpfqGn'' \<in> fst ` set (merged_view ?s)"
    unfolding s0_merged_view by (simp add: PRE_CREATED_MODELS_def)
  have t: "session_state (start_state PRE_CREATED_MODELS (saved_file s')) = None
           \<and> saved_file (start_state PRE_CREATED_MODELS (saved_file s')) = saved_file s'"
    by (simp add: start_state_def)
  from all [OF k] t run show ?thesis by auto
qed

section \<open>Properties of the sender grouping\<close>

subsection \<open>Tokens, groups and choices\<close>

lemma split_ws_tokens:
  "\<forall>c \<in> set tok. \<not> isspace c \<Longrightarrow> t \<in> set (split_ws cs tok) \<Longrightarrow>
   t \<noteq> [] \<and> (\<forall>c \<in> set t. \<not> isspace c)"
proof (induction cs arbitrary: tok)
  case Nil
  then show ?case by (simp split: if_splits)
next
  case (Cons c cs)
  show ?case
  proof (cases "isspace c")
    case False
    with Cons.prems have "\<forall>c \<in> set (tok @ [c]). \<not> isspace c"
      and "t \<in> set (split_ws cs (tok @ [c]))" by simp_all
    then show ?thesis by (rule Cons.IH)
  next
    case sp: True
    have e: "\<forall>c \<in> set ([] :: string). \<not> isspace c" by simp
    show ?thesis
    proof (cases "tok = []")
      case True
      with sp Cons.prems have "t \<in> set (split_ws cs [])" by simp
      with e show ?thesis by (rule Cons.IH)
    next
      case False
      with sp Cons.prems have "t = tok \<or> t \<in> set (split_ws cs [])" by simp
      then show ?thesis
      proof
        assume "t = tok"
        with False Cons.prems(1) show ?thesis by simp
      next
        assume "t \<in> set (split_ws cs [])"
        with e show ?thesis by (rule Cons.IH)
      qed
    qed
  qed
qed

lemma split_ws_nonempty:
  "tok \<noteq> [] \<or> (\<exists>c \<in> set cs. \<not> isspace c) \<Longrightarrow> split_ws cs tok \<noteq> []"
  by (induction cs tok rule: split_ws.induct) auto

lemma split_ws_token_prefix:
  "\<forall>c \<in> set t. \<not> isspace c \<Longrightarrow> split_ws (t @ cs) tok = split_ws cs (tok @ t)"
  by (induction t arbitrary: tok) auto

lemma split_token_then_space:
  assumes "t \<noteq> []" and "\<forall>c \<in> set t. \<not> isspace c" and "isspace c"
  shows "split (t @ c # cs) = t # split cs"
  using assms by (simp add: split_def split_ws_token_prefix)

lemma isspace_space: "isspace CHR '' ''"
  by code_simp

lemma get_first_name_ok:
  assumes "\<not> list_all isspace s"
  shows "\<exists>fn rest. split s = fn # rest \<and> get_first_name s = Inr fn
            \<and> fn \<noteq> [] \<and> (\<forall>c \<in> set fn. \<not> isspace c)"
proof -
  from assms have ne: "s \<noteq> []" by auto
  from assms have "\<exists>c \<in> set s. \<not> isspace c" by (simp add: list_all_iff)
  then have "split s \<noteq> []" by (simp add: split_def split_ws_nonempty)
  then obtain fn rest where sp: "split s = fn # rest" by (cases "split s") auto
  have "fn \<in> set (split_ws s [])" using sp by (simp add: split_def)
  with split_ws_tokens [of "[]" fn s] have "fn \<noteq> [] \<and> (\<forall>c \<in> set fn. \<not> isspace c)" by simp
  with sp ne show ?thesis by (simp add: get_first_name_def)
qed

lemma group_loop_ok:
  assumes "\<forall>s \<in> set senders. \<not> list_all isspace s"
  shows "\<exists>g'. group_loop senders g = Inr g'
     \<and> (\<forall>fn. map_of g' fn =
           (if filter (\<lambda>s. get_first_name s = Inr fn) senders = [] then map_of g fn
            else Some ((case map_of g fn of None \<Rightarrow> [] | Some l \<Rightarrow> l)
                       @ filter (\<lambda>s. get_first_name s = Inr fn) senders)))
     \<and> (distinct (map fst g) \<longrightarrow> distinct (map fst g'))"
  using assms
proof (induction senders arbitrary: g)
  case Nil
  then show ?case by simp
next
  case (Cons s rest)
  from Cons.prems have "\<not> list_all isspace s" by simp
  from get_first_name_ok [OF this] obtain f where f: "get_first_name s = Inr f" by blast
  let ?old = "case map_of g f of None \<Rightarrow> [] | Some l \<Rightarrow> l"
  let ?g1 = "AList.update f (?old @ [s]) g"
  have step: "group_loop (s # rest) g = group_loop rest ?g1"
    by (simp add: f split: option.splits)
  from Cons.prems have "\<forall>s \<in> set rest. \<not> list_all isspace s" by simp
  from Cons.IH [OF this, of ?g1] obtain g' where
    run: "group_loop rest ?g1 = Inr g'"
    and look: "\<And>fn. map_of g' fn =
           (if filter (\<lambda>s. get_first_name s = Inr fn) rest = [] then map_of ?g1 fn
            else Some ((case map_of ?g1 fn of None \<Rightarrow> [] | Some l \<Rightarrow> l)
                       @ filter (\<lambda>s. get_first_name s = Inr fn) rest))"
    and dist: "distinct (map fst ?g1) \<longrightarrow> distinct (map fst g')"
    by blast
  have "map_of g' fn =
           (if filter (\<lambda>s. get_first_name s = Inr fn) (s # rest) = [] then map_of g fn
            else Some ((case map_of g fn of None \<Rightarrow> [] | Some l \<Rightarrow> l)
                       @ filter (\<lambda>s. get_first_name s = Inr fn) (s # rest)))" for fn
  proof (cases "fn = f")
    case True
    then show ?thesis by (simp add: look f update_conv')
  next
    case False
    then show ?thesis by (simp add: look f update_conv')
  qed
  moreover have "distinct (map fst g) \<longrightarrow> distinct (map fst g')"
    using dist by (simp add: distinct_update)
  ultimately show ?case using run step by simp
qed

lemma display_loop_ok:
  "\<forall>(fn, l) \<in> set grouped. l \<noteq> [] \<Longrightarrow>
   display_loop grouped acc =
     Inr (acc @ map (\<lambda>(fn, l). if length l > 1 then fn @ '' (All variations)'' else hd l) grouped)"
proof (induction grouped arbitrary: acc)
  case Nil
  then show ?case by simp
next
  case (Cons p grouped)
  obtain fn l where p: "p = (fn, l)" by (cases p)
  with Cons.prems have "l \<noteq> []" and rest: "\<forall>(fn, l) \<in> set grouped. l \<noteq> []" by auto
  then obtain x xs where l: "l = x # xs" by (cases l) auto
  show ?case unfolding p by (simp add: Cons.IH [OF rest] l)
qed

lemma endswith_append: "endswith (a @ b) b"
  by (simp add: endswith_def)

lemma expand_combined:
  assumes "fn \<noteq> []" and "\<forall>c \<in> set fn. \<not> isspace c" and "map_of grouped fn = Some members"
  shows "expand_selected grouped [fn @ '' (All variations)''] [] = Inr members"
proof -
  have e: "endswith (fn @ '' (All variations)'') ''(All variations)''"
    using endswith_append [of "fn @ '' ''" "''(All variations)''"] by simp
  have "split (fn @ CHR '' '' # ''(All variations)'') = fn # split ''(All variations)''"
    using assms(1,2) isspace_space by (rule split_token_then_space)
  then have s: "split (fn @ '' (All variations)'') = fn # split ''(All variations)''" by simp
  show ?thesis
    using e assms(3) by (simp add: s del: split_ws.simps)
qed

lemma expand_single:
  assumes "\<not> list_all isspace m" and "get_first_name m = Inr fn" and "map_of grouped fn = Some [m]"
  shows "expand_selected grouped [m] [] = Inr [m]"
proof -
  from get_first_name_ok [OF assms(1)] assms(2) obtain rest where "split m = fn # rest" by auto
  with assms(3) show ?thesis by simp
qed

lemma strip_not_blank: "strip x \<noteq> [] \<Longrightarrow> \<not> list_all isspace (strip x)"
proof -
  assume ne: "strip x \<noteq> []"
  let ?y = "dropWhile isspace (rev (dropWhile isspace x))"
  from ne have y: "?y \<noteq> []" by (simp add: strip_def)
  then have "\<not> isspace (hd ?y)" by (rule hd_dropWhile)
  moreover from y have "hd ?y \<in> set ?y" by simp
  ultimately have "\<exists>c \<in> set ?y. \<not> isspace c" by blast
  then show ?thesis by (simp add: strip_def list_all_iff)
qed

lemma gather_senders_ok:
  "distinct (gather_senders rows) \<and> (\<forall>s \<in> set (gather_senders rows). \<not> list_all isspace s)"
  by (auto simp: gather_senders_def strip_not_blank)

subsection \<open>Claim about the grouping\<close>

text \<open>
  C9. The senders are grouped by their first whitespace-delimited token: every sender is
  in the group of its first token and each group holds exactly the senders with that first
  token, in order. A group with more than one member is shown as the one choice
  \<open><first token> (All variations)\<close>, and selecting that choice expands to exactly the
  members of the group; a group with one member is shown as that member, and selecting it
  yields that member. The senders are distinct and not blank, as the sorted set of
  trimmed, non-empty values gathered from the rows is (lemma \<open>gather_senders_ok\<close>).
  For \<open>["Alice Smith", "Alice Jones", "Bob Lee"]\<close> the group \<open>Alice\<close> has two
  members and one combined choice, and the group \<open>Bob\<close> is shown as \<open>"Bob Lee"\<close>.
\<close>

theorem senders_grouped_by_first_token:
  assumes d: "distinct senders" and nb: "\<forall>s \<in> set senders. \<not> list_all isspace s"
  shows "\<exists>grouped display.
           group_loop senders [] = Inr grouped
         \<and> display_loop grouped [] = Inr display
         \<and> distinct (map fst grouped)
         \<and> length display = length grouped
         \<and> (\<forall>s \<in> set senders. \<exists>fn members.
                get_first_name s = Inr fn \<and> map_of grouped fn = Some members \<and> s \<in> set members)
         \<and> (\<forall>fn members. map_of grouped fn = Some members \<longrightarrow>
                members \<noteq> [] \<and> members = filter (\<lambda>s. get_first_name s = Inr fn) senders)
         \<and> (\<forall>fn members. map_of grouped fn = Some members \<and> length members > 1 \<longrightarrow>
                fn @ '' (All variations)'' \<in> set display
              \<and> expand_selected grouped [fn @ '' (All variations)''] [] = Inr members)
         \<and> (\<forall>fn m. map_of grouped fn = Some [m] \<longrightarrow>
                m \<in> set display \<and> expand_selected grouped [m] [] = Inr [m])"
proof -
  from group_loop_ok [OF nb, of "[]"] obtain grouped where
    run: "group_loop senders [] = Inr grouped"
    and look: "\<And>fn. map_of grouped fn =
           (if filter (\<lambda>s. get_first_name s = Inr fn) senders = [] then None
            else Some (filter (\<lambda>s. get_first_name s = Inr fn) senders))"
    and dist: "distinct (map fst grouped)"
    by auto
  have members: "members \<noteq> [] \<and> members = filter (\<lambda>s. get_first_name s = Inr fn) senders"
    if "map_of grouped fn = Some members" for fn members
    using that by (simp add: look split: if_splits)
  have nonempty: "\<forall>(fn, l) \<in> set grouped. l \<noteq> []"
  proof (clarify)
    fix fn assume "(fn, []) \<in> set grouped"
    with dist have "map_of grouped fn = Some []" by simp
    with members show False by blast
  qed
  let ?show = "\<lambda>(fn, l). if length l > 1 then fn @ '' (All variations)'' else hd l"
  let ?display = "map ?show grouped"
  have disp: "display_loop grouped [] = Inr ?display"
    using display_loop_ok [OF nonempty, of "[]"] by simp
  have cover: "\<exists>fn members. get_first_name s = Inr fn \<and> map_of grouped fn = Some members
                 \<and> s \<in> set members" if "s \<in> set senders" for s
  proof -
    from that nb have "\<not> list_all isspace s" by simp
    from get_first_name_ok [OF this] obtain fn where fn: "get_first_name s = Inr fn" by blast
    with that have in_f: "s \<in> set (filter (\<lambda>s. get_first_name s = Inr fn) senders)" by simp
    then have "filter (\<lambda>s. get_first_name s = Inr fn) senders \<noteq> []"
      by (auto simp: filter_empty_conv)
    then have "map_of grouped fn = Some (filter (\<lambda>s. get_first_name s = Inr fn) senders)"
      by (simp add: look)
    with fn in_f show ?thesis by blast
  qed
  have combined: "fn @ '' (All variations)'' \<in> set ?display
                  \<and> expand_selected grouped [fn @ '' (All variations)''] [] = Inr members"
    if m: "map_of grouped fn = Some members" and l: "length members > 1" for fn members
  proof -
    from m have "(fn, members) \<in> set grouped" by (rule map_of_SomeD)
    with l have 1: "fn @ '' (All variations)'' \<in> set ?display" by (force simp: image_iff)
    from members [OF m] have "filter (\<lambda>s. get_first_name s = Inr fn) senders \<noteq> []" by blast
    then obtain s where s: "s \<in> set senders" "get_first_name s = Inr fn"
      by (auto simp: filter_empty_conv)
    from s(1) nb have "\<not> list_all isspace s" by simp
    from get_first_name_ok [OF this] s(2) have "fn \<noteq> [] \<and> (\<forall>c \<in> set fn. \<not> isspace c)" by auto
    then have "expand_selected grouped [fn @ '' (All variations)''] [] = Inr members"
      using m by (intro expand_combined) auto
    with 1 show ?thesis by simp
  qed
  have single: "m \<in> set ?display \<and> expand_selected grouped [m] [] = Inr [m]"
    if m: "map_of grouped fn = Some [m]" for fn m
  proof -
    from m have "(fn, [m]) \<in> set grouped" by (rule map_of_SomeD)
    then have 1: "m \<in> set ?display" by (force simp: image_iff)
    from members [OF m] have "[m] = filter (\<lambda>s. get_first_name s = Inr fn) senders" by simp
    then have "m \<in> set (filter (\<lambda>s. get_first_name s = Inr fn) senders)"
      by (metis list.set_intros(1))
    then have ms: "m \<in> set senders" and fm: "get_first_name m = Inr fn" by simp_all
    from ms nb have "\<not> list_all isspace m" by simp
    from expand_single [OF this fm m] 1 show ?thesis by simp
  qed
  have len: "length ?display = length grouped" by simp
  show ?thesis
  proof (rule exI [of _ grouped], rule exI [of _ ?display], intro conjI)
    show "group_loop senders [] = Inr grouped" by (rule run)
    show "display_loop grouped [] = Inr ?display" by (rule disp)
    show "distinct (map fst grouped)" by (rule dist)
    show "length ?display = length grouped" by (rule len)
    show "\<forall>s \<in> set senders. \<exists>fn members.
            get_first_name s = Inr fn \<and> map_of grouped fn = Some members \<and> s \<in> set members"
      using cover by blast
    show "\<forall>fn members. map_of grouped fn = Some members \<longrightarrow>
            members \<noteq> [] \<and> members = filter (\<lambda>s. get_first_name s = Inr fn) senders"
      using members by blast
    show "\<forall>fn members. map_of grouped fn = Some members \<and> length members > 1 \<longrightarrow>
            fn @ '' (All variations)'' \<in> set ?display
          \<and> expand_selected grouped [fn @ '' (All variations)''] [] = Inr members"
      using combined by blast
    show "\<forall>fn m. map_of grouped fn = Some [m] \<longrightarrow>
            m \<in> set ?display \<and> expand_selected grouped [m] [] = Inr [m]"
      using single by blast
  qed
qed

theorem senders_grouped_by_first_token_witness:
  "group_loop [''Alice Smith'', ''Alice Jones'', ''Bob Lee''] [] =
     Inr [(''Alice'', [''Alice Smith'', ''Alice Jones'']), (''Bob'', [''Bob Lee''])]
   \<and> display_loop [(''Alice'', [''Alice Smith'', ''Alice Jones'']), (''Bob'', [''Bob Lee''])] [] =
     Inr [''Alice (All variations)'', ''Bob Lee'']
   \<and> expand_selected [(''Alice'', [''Alice Smith'', ''Alice Jones'']), (''Bob'', [''Bob Lee''])]
        [''Alice (All variations)''] [] = Inr [''Alice Smith'', ''Alice Jones'']
   \<and> expand_selected [(''Alice'', [''Alice Smith'', ''Alice Jones'']), (''Bob'', [''Bob Lee''])]
        [''Bob Lee''] [] = Inr [''Bob Lee'']"
proof -
  let ?senders = "[''Alice Smith'', ''Alice Jones'', ''Bob Lee'']"
  let ?g = "[(''Alice'', [''Alice Smith'', ''Alice Jones'']), (''Bob'', [''Bob Lee''])]"
  have d: "distinct ?senders" by simp
  have nb: "\<forall>s \<in> set ?senders. \<not> list_all isspace s" by code_simp
  have g: "group_loop ?senders [] = Inr ?g" by code_simp
  have dl: "display_loop ?g [] = Inr [''Alice (All variations)'', ''Bob Lee'']" by simp
  from senders_grouped_by_first_token [OF d nb]
  obtain grouped display where gr: "group_loop ?senders [] = Inr grouped"
    and c0: "\<forall>fn members. map_of grouped fn = Some members \<and> length members > 1 \<longrightarrow>
             fn @ '' (All variations)'' \<in> set display \<and>
             expand_selected grouped [fn @ '' (All variations)''] [] = Inr members"
    and s0: "\<forall>fn m. map_of grouped fn = Some [m] \<longrightarrow>
             m \<in> set display \<and> expand_selected grouped [m] [] = Inr [m]"
    by blast
  from gr g have eq: "grouped = ?g" by simp
  have c: "map_of ?g fn = Some members \<and> length members > 1 \<longrightarrow>
             expand_selected ?g [fn @ '' (All variations)''] [] = Inr members" for fn members
    using c0 unfolding eq by blast
  have s: "map_of ?g fn = Some [m] \<longrightarrow> expand_selected ?g [m] [] = Inr [m]" for fn m
    using s0 unfolding eq by blast
  from c [of "''Alice''" "[''Alice Smith'', ''Alice Jones'']"] have "expand_selected ?g [''Alice'' @ '' (All variations)''] [] = Inr [''Alice Smith'', ''Alice Jones'']"
    by simp
  moreover from s [of "''Bob''" "''Bob Lee''"] have "expand_selected ?g [''Bob Lee''] [] = Inr [''Bob Lee'']"
    by simp
  ultimately show ?thesis using g dl by simp
qed

end
